theory Spec2Isabelle
  imports Main "HOL-Library.Sublist"
begin

section \<open>Multi sequence detector: the automaton builder and the streaming matcher\<close>

text \<open>
  A shallow embedding of \<^verbatim>\<open>main.py\<close>. A Python string is a \<open>string\<close>; a character is
  the \<open>char\<close> with its code point (code points below 256). Where Python holds a
  one-character string as a list element (\<^verbatim>\<open>seq\<close>, \<^verbatim>\<open>temp\<close>) the model holds the
  \<open>char\<close>; where it holds a string as a dictionary key or as the argument of
  \<^verbatim>\<open>step\<close> the model holds the \<open>string\<close>. States and counters are Python integers
  that start at 0 and only take the values of \<^verbatim>\<open>len\<close>, \<^verbatim>\<open>range\<close> and \<^verbatim>\<open>+= 1\<close>, so they
  are natural numbers. Every exception the code can raise is a value of \<open>py_error\<close>.
  The parameter \<^verbatim>\<open>bit\<close> of the source is written \<open>b\<close>, since \<open>bit\<close> is a constant of
  HOL.
\<close>

subsection \<open>Exceptions\<close>

datatype py_error = ValueError | KeyError | IndexError | EOFError | SystemExit

subsection \<open>\<^verbatim>\<open>str.strip()\<close>\<close>

text \<open>
  \<^verbatim>\<open>str.strip()\<close> with no argument removes the leading and the trailing characters for
  which \<^verbatim>\<open>str.isspace\<close> holds. Below code point 256 these are 9 to 13, 28 to 32, 133
  and 160.
\<close>

definition isspace :: "char \<Rightarrow> bool" where
  "isspace c =
     (let n = (of_char c :: nat)
      in (9 \<le> n \<and> n \<le> 13) \<or> (28 \<le> n \<and> n \<le> 32) \<or> n = 133 \<or> n = 160)"

definition strip :: "string \<Rightarrow> string" where
  "strip s = rev (dropWhile isspace (rev (dropWhile isspace s)))"

subsection \<open>\<^verbatim>\<open>build_transitions\<close>\<close>

text \<open>
  The loop \<^verbatim>\<open>for size in range(limit, -1, -1)\<close> of the inner function \<^verbatim>\<open>nxt\<close>, entered
  at \<open>size\<close>. \<^verbatim>\<open>temp[-size:]\<close> with \<open>size > 0\<close> is the list from index
  \<open>max (len(temp) - size) 0\<close> on, which is \<open>drop (length temp - size) temp\<close> with the
  truncating subtraction of \<open>nat\<close>. When the loop ends without returning, the function
  returns 0.
\<close>

fun nxt_loop :: "char list \<Rightarrow> char list \<Rightarrow> nat \<Rightarrow> nat" where
  "nxt_loop seq temp 0 =
     (let suffix = []; prefix = take 0 seq
      in if suffix = prefix then 0 else 0)"
| "nxt_loop seq temp (Suc n) =
     (let suffix = drop (length temp - Suc n) temp; prefix = take (Suc n) seq
      in if suffix = prefix then Suc n else nxt_loop seq temp n)"

definition nxt :: "char list \<Rightarrow> nat \<Rightarrow> char \<Rightarrow> nat" where
  "nxt seq state_len b =
     (let temp = take state_len seq @ [b];
          limit = min (length temp) (length seq)
      in nxt_loop seq temp limit)"

type_synonym row = "string \<rightharpoonup> nat"
type_synonym transitions = "nat \<rightharpoonup> row"

text \<open>A dictionary read \<^verbatim>\<open>d[k]\<close>: \<^verbatim>\<open>KeyError\<close> when the key is missing.\<close>

definition getitem :: "('k \<rightharpoonup> 'v) \<Rightarrow> 'k \<Rightarrow> py_error + 'v" where
  "getitem d k = (case d k of None \<Rightarrow> Inl KeyError | Some v \<Rightarrow> Inr v)"

text \<open>The read \<^verbatim>\<open>t[st][b]\<close> of a table entry: the row first, then the entry in it.\<close>

definition lookup :: "transitions \<Rightarrow> nat \<Rightarrow> string \<Rightarrow> py_error + nat" where
  "lookup t st b = (case getitem t st of Inl e \<Rightarrow> Inl e | Inr r \<Rightarrow> getitem r b)"

text \<open>
  The statement \<^verbatim>\<open>transitions[plen][b] = transitions[0][b]\<close>: the right-hand side is
  read first, then the row \<^verbatim>\<open>transitions[plen]\<close>, which is updated in place.
\<close>

definition copy_from_S0 :: "transitions \<Rightarrow> nat \<Rightarrow> string \<Rightarrow> py_error + transitions" where
  "copy_from_S0 tr plen b =
     (case lookup tr 0 b of Inl e \<Rightarrow> Inl e | Inr v \<Rightarrow>
      case getitem tr plen of Inl e \<Rightarrow> Inl e | Inr rowL \<Rightarrow>
      Inr (tr(plen \<mapsto> rowL(b \<mapsto> v))))"

definition build_transitions :: "string \<Rightarrow> bool \<Rightarrow> py_error + (transitions \<times> nat)" where
  "build_transitions pattern allow_overlap =
     (let seq = strip pattern;
          plen = length seq;
          transitions =
            fold (\<lambda>st tr. tr(st \<mapsto> [''0'' \<mapsto> nxt seq st CHR ''0'', ''1'' \<mapsto> nxt seq st CHR ''1'']))
              [0..<plen + 1] Map.empty
      in if \<not> allow_overlap \<and> plen \<ge> 1 then
           (case copy_from_S0 transitions plen ''0'' of Inl e \<Rightarrow> Inl e | Inr tr0 \<Rightarrow>
            case copy_from_S0 tr0 plen ''1'' of Inl e \<Rightarrow> Inl e | Inr tr1 \<Rightarrow>
            Inr (tr1, plen))
         else Inr (transitions, plen))"

subsection \<open>\<^verbatim>\<open>StreamMultiDetector\<close>\<close>

record detector =
  patterns :: "string list"
  allow_overlap :: bool
  tables :: "transitions list"
  plens :: "nat list"
  states :: "nat list"
  counts :: "nat list"

text \<open>
  The loop of \<^verbatim>\<open>__init__\<close> over the patterns, with the lists \<^verbatim>\<open>tables\<close> and \<^verbatim>\<open>plens\<close>
  built so far. An exception of \<^verbatim>\<open>build_transitions\<close> leaves \<^verbatim>\<open>__init__\<close>, and no object
  is returned.
\<close>

fun init_loop ::
  "string list \<Rightarrow> bool \<Rightarrow> transitions list \<Rightarrow> nat list \<Rightarrow> py_error + (transitions list \<times> nat list)"
where
  "init_loop [] ov ts ls = Inr (ts, ls)"
| "init_loop (p # ps) ov ts ls =
     (case build_transitions p ov of
        Inl e \<Rightarrow> Inl e
      | Inr (t, L) \<Rightarrow> init_loop ps ov (ts @ [t]) (ls @ [L]))"

definition StreamMultiDetector :: "string list \<Rightarrow> bool \<Rightarrow> py_error + detector" where
  "StreamMultiDetector pats ov =
     (case init_loop pats ov [] [] of
        Inl e \<Rightarrow> Inl e
      | Inr (ts, ls) \<Rightarrow>
          Inr \<lparr>patterns = pats, allow_overlap = ov, tables = ts, plens = ls,
               states = replicate (length pats) 0, counts = replicate (length pats) 0\<rparr>)"

text \<open>A list read \<^verbatim>\<open>xs[i]\<close> at an index \<open>i \<ge> 0\<close>: \<^verbatim>\<open>IndexError\<close> out of range.\<close>

definition list_get :: "'a list \<Rightarrow> nat \<Rightarrow> py_error + 'a" where
  "list_get xs i = (if i < length xs then Inr (xs ! i) else Inl IndexError)"

text \<open>
  One iteration of the loop of \<^verbatim>\<open>step\<close>, at index \<open>i\<close>. The detector is mutated in
  place, so an iteration that raises leaves the detector as it was when the exception
  happened: the result is the outcome together with the detector after it.
\<close>

definition step_body :: "nat \<Rightarrow> string \<Rightarrow> detector \<Rightarrow> (py_error + unit) \<times> detector" where
  "step_body i b d =
     (case list_get (tables d) i of Inl e \<Rightarrow> (Inl e, d) | Inr t \<Rightarrow>
      case list_get (states d) i of Inl e \<Rightarrow> (Inl e, d) | Inr st \<Rightarrow>
      case lookup t st b of Inl e \<Rightarrow> (Inl e, d) | Inr nx \<Rightarrow>
      let d1 = d\<lparr>states := (states d)[i := nx]\<rparr> in
      case list_get (plens d1) i of Inl e \<Rightarrow> (Inl e, d1) | Inr L \<Rightarrow>
      if nx = L then
        (case list_get (counts d1) i of Inl e \<Rightarrow> (Inl e, d1) | Inr c \<Rightarrow>
         (Inr (), d1\<lparr>counts := (counts d1)[i := c + 1]\<rparr>))
      else (Inr (), d1))"

fun step_loop :: "nat list \<Rightarrow> string \<Rightarrow> detector \<Rightarrow> (py_error + unit) \<times> detector" where
  "step_loop [] b d = (Inr (), d)"
| "step_loop (i # is) b d =
     (case step_body i b d of
        (Inl e, d') \<Rightarrow> (Inl e, d')
      | (Inr u, d') \<Rightarrow> step_loop is b d')"

definition step :: "detector \<Rightarrow> string \<Rightarrow> (py_error + unit) \<times> detector" where
  "step d b =
     (if b \<notin> {''0'', ''1''} then (Inl ValueError, d)
      else step_loop [0..<length (patterns d)] b d)"

definition snapshot :: "detector \<Rightarrow> nat list \<times> nat list" where
  "snapshot d = (counts d, states d)"

subsection \<open>The callers: \<^verbatim>\<open>prompt_patterns\<close> and the commands of \<^verbatim>\<open>main\<close>\<close>

text \<open>
  \<^verbatim>\<open>prompt_patterns\<close> reads lines until one is empty after \<^verbatim>\<open>strip()\<close>. The standard
  input is the list of the lines still to be read; \<^verbatim>\<open>input\<close> raises \<^verbatim>\<open>EOFError\<close> when
  there is none, and \<^verbatim>\<open>sys.exit\<close> raises \<^verbatim>\<open>SystemExit\<close>. What the function prints is
  not modelled.
\<close>

fun prompt_loop :: "string list \<Rightarrow> string list \<Rightarrow> py_error + string list" where
  "prompt_loop [] pats = Inl EOFError"
| "prompt_loop (l # ls) pats =
     (let line = strip l
      in if line = [] then Inr pats
         else if line = [] \<or> list_ex (\<lambda>c. c \<notin> set ''01'') line then prompt_loop ls pats
         else prompt_loop ls (pats @ [line]))"

definition prompt_patterns :: "string list \<Rightarrow> py_error + string list" where
  "prompt_patterns stdin =
     (case prompt_loop stdin [] of
        Inl e \<Rightarrow> Inl e
      | Inr pats \<Rightarrow> if pats = [] then Inl SystemExit else Inr pats)"

text \<open>
  The command \<^verbatim>\<open>reset\<close> of \<^verbatim>\<open>main\<close> rebinds \<^verbatim>\<open>det\<close> to a new detector, built from
  the \<^verbatim>\<open>patterns\<close> and the \<^verbatim>\<open>allow_overlap\<close> that \<^verbatim>\<open>main\<close> built \<^verbatim>\<open>det\<close> from; the
  detector stores both and never changes them, so they are read from it here.
\<close>

definition reset :: "detector \<Rightarrow> py_error + detector" where
  "reset det = StreamMultiDetector (patterns det) (allow_overlap det)"

text \<open>
  The loop \<^verbatim>\<open>for ch in s: det.step(ch)\<close> of \<^verbatim>\<open>main\<close>, and equally any sequence of calls
  of \<^verbatim>\<open>step\<close>: an exception ends it, with the detector as the failed call left it.
\<close>

fun feed :: "detector \<Rightarrow> string list \<Rightarrow> (py_error + unit) \<times> detector" where
  "feed d [] = (Inr (), d)"
| "feed d (b # bs) =
     (case step d b of
        (Inl e, d') \<Rightarrow> (Inl e, d')
      | (Inr u, d') \<Rightarrow> feed d' bs)"

subsection \<open>The reference definition of a transition\<close>

text \<open>
  The specification's words for a table entry: the length of the longest suffix of \<open>t\<close>
  that is a prefix of the pattern \<open>p\<close>. This definition follows the specification, not
  the code; \<open>nxt\<close> above is the code.
\<close>

definition longest_suffix_prefix :: "'a list \<Rightarrow> 'a list \<Rightarrow> nat" where
  "longest_suffix_prefix t p = Max (length ` {u. suffix u t \<and> prefix u p})"

subsection \<open>Closed forms and the invariant of a detector\<close>

text \<open>
  The row that the loop of \<^verbatim>\<open>build_transitions\<close> stores for a state, and the table that
  \<^verbatim>\<open>build_transitions\<close> returns, as derived below (\<open>build_transitions_eq\<close>).
\<close>

definition row_of :: "char list \<Rightarrow> nat \<Rightarrow> row" where
  "row_of seq st = [''0'' \<mapsto> nxt seq st CHR ''0'', ''1'' \<mapsto> nxt seq st CHR ''1'']"

definition table_of :: "string \<Rightarrow> bool \<Rightarrow> transitions" where
  "table_of p ov =
     (let seq = strip p; L = length seq
      in (\<lambda>st. if st \<le> L
                then Some (row_of seq (if \<not> ov \<and> 1 \<le> L \<and> st = L then 0 else st))
                else None))"

text \<open>
  The invariant of a detector: the five lists have one entry for each pattern, each table
  has an entry in range for every state up to its accept state and for both symbols, and
  each current state is at most the accept state.
\<close>

definition table_ok :: "transitions \<Rightarrow> nat \<Rightarrow> bool" where
  "table_ok t L = (\<forall>st \<le> L. \<forall>b \<in> {''0'', ''1''}. \<exists>k \<le> L. lookup t st b = Inr k)"

definition wf :: "detector \<Rightarrow> bool" where
  "wf d =
     (let n = length (patterns d)
      in length (tables d) = n \<and> length (plens d) = n \<and>
         length (states d) = n \<and> length (counts d) = n \<and>
         (\<forall>i < n. table_ok (tables d ! i) (plens d ! i) \<and> states d ! i \<le> plens d ! i))"

text \<open>
  The detectors a program can hold: the ones \<^verbatim>\<open>StreamMultiDetector\<close> returns, and the
  ones any call of \<^verbatim>\<open>step\<close> leaves behind, whether it returns or raises.
\<close>

inductive reachable :: "detector \<Rightarrow> bool" where
  constructed: "StreamMultiDetector pats ov = Inr d \<Longrightarrow> reachable d"
| stepped: "reachable d \<Longrightarrow> step d b = (r, d') \<Longrightarrow> reachable d'"

section \<open>Lemmas\<close>

subsection \<open>\<open>strip\<close>\<close>

lemma strip_tail_clean: "dropWhile isspace (rev (strip s)) = rev (strip s)"
  by (simp add: strip_def dropWhile_idem)

lemma strip_head_clean: "dropWhile isspace (strip s) = strip s"
proof -
  let ?t = "dropWhile isspace s"
  let ?u = "rev (dropWhile isspace (rev ?t))"
  have dec: "?t = ?u @ rev (takeWhile isspace (rev ?t))"
    by (metis rev_append rev_rev_ident takeWhile_dropWhile_id)
  show ?thesis
  proof (cases "?u = []")
    case True
    then have "strip s = []" unfolding strip_def .
    then show ?thesis by simp
  next
    case False
    then have "hd ?u = hd ?t" using dec by (metis hd_append2)
    moreover have "?t \<noteq> []" using False dec by (metis append_is_Nil_conv)
    then have "\<not> isspace (hd ?t)" by (rule hd_dropWhile)
    ultimately have "\<not> isspace (hd ?u)" by simp
    then have "dropWhile isspace ?u = ?u" by (simp only: dropWhile_eq_self_iff) simp
    then show ?thesis by (simp add: strip_def)
  qed
qed

lemma strip_idem: "strip (strip s) = strip s"
proof -
  have "strip (strip s) = rev (dropWhile isspace (rev (strip s)))"
    unfolding strip_def[of "strip s"] by (simp only: strip_head_clean)
  also have "\<dots> = strip s" by (simp only: strip_tail_clean rev_rev_ident)
  finally show ?thesis .
qed

lemma isspace_simps: "\<not> isspace CHR ''0''" "\<not> isspace CHR ''1''"
  by (simp_all add: isspace_def)

lemma strip_no_space:
  assumes "s = [] \<or> (\<not> isspace (hd s) \<and> \<not> isspace (last s))"
  shows "strip s = s"
proof (cases "s = []")
  case True
  then show ?thesis by (simp add: strip_def)
next
  case False
  with assms have h: "\<not> isspace (hd s)" and l: "\<not> isspace (last s)" by auto
  have 1: "dropWhile isspace s = s"
    using h by (simp only: dropWhile_eq_self_iff) simp
  have "hd (rev s) = last s" using False by (simp add: hd_rev)
  then have 2: "dropWhile isspace (rev s) = rev s"
    using l by (simp only: dropWhile_eq_self_iff) simp
  show ?thesis by (simp only: strip_def 1 2 rev_rev_ident)
qed

lemma strip_all_space:
  assumes "\<forall>c \<in> set s. isspace c"
  shows "strip s = []"
proof -
  have "dropWhile isspace s = []" using assms by simp
  then show ?thesis by (simp only: strip_def rev.simps dropWhile.simps)
qed

subsection \<open>The search loop of \<open>nxt\<close>\<close>

lemma nxt_loop_le: "nxt_loop seq temp n \<le> n"
  by (induction n) (auto simp: Let_def)

lemma nxt_loop_match:
  "drop (length temp - nxt_loop seq temp n) temp = take (nxt_loop seq temp n) seq"
  by (induction n) (auto simp: Let_def)

lemma nxt_loop_greatest:
  "nxt_loop seq temp n < j \<Longrightarrow> j \<le> n \<Longrightarrow> drop (length temp - j) temp \<noteq> take j seq"
  by (induction n) (auto simp: Let_def le_Suc_eq split: if_splits)

lemma suffix_iff_drop: "suffix u t \<longleftrightarrow> length u \<le> length t \<and> drop (length t - length u) t = u"
proof
  assume "suffix u t"
  then obtain zs where "t = zs @ u" by (auto simp: suffix_def)
  then show "length u \<le> length t \<and> drop (length t - length u) t = u" by simp
next
  assume "length u \<le> length t \<and> drop (length t - length u) t = u"
  then show "suffix u t" by (metis suffix_drop)
qed

lemma prefix_iff_take: "prefix u p \<longleftrightarrow> length u \<le> length p \<and> take (length u) p = u"
proof
  assume "prefix u p"
  then obtain zs where "p = u @ zs" by (auto simp: prefix_def)
  then show "length u \<le> length p \<and> take (length u) p = u" by simp
next
  assume "length u \<le> length p \<and> take (length u) p = u"
  then show "prefix u p" by (metis take_is_prefix)
qed

lemma finite_borders: "finite {u. suffix u t \<and> prefix u p}"
proof -
  have "{u. suffix u t \<and> prefix u p} \<subseteq> (\<lambda>k. take k p) ` {..length p}"
    by (auto simp: prefix_iff_take image_iff) (metis atMost_iff)
  then show ?thesis by (rule finite_subset) simp
qed

lemma nxt_longest: "nxt seq s b = longest_suffix_prefix (take s seq @ [b]) seq"
proof -
  define t where "t = take s seq @ [b]"
  define n where "n = min (length t) (length seq)"
  define k where "k = nxt_loop seq t n"
  have kn: "k \<le> n" unfolding k_def by (rule nxt_loop_le)
  have km: "drop (length t - k) t = take k seq" unfolding k_def by (rule nxt_loop_match)
  have lk: "length (take k seq) = k" using kn by (simp add: n_def)
  have "suffix (take k seq) t" using km by (metis suffix_drop)
  then have mem: "k \<in> length ` {u. suffix u t \<and> prefix u seq}"
    using lk take_is_prefix[of k seq] by (metis (mono_tags, lifting) image_eqI mem_Collect_eq)
  have ub: "j \<le> k" if "j \<in> length ` {u. suffix u t \<and> prefix u seq}" for j
  proof (rule ccontr)
    assume "\<not> j \<le> k"
    then have kj: "k < j" by simp
    from that obtain u where u: "suffix u t" "prefix u seq" "j = length u" by auto
    then have jn: "j \<le> n" by (simp add: n_def suffix_iff_drop prefix_iff_take)
    have "drop (length t - j) t = take j seq"
      using u by (simp add: suffix_iff_drop prefix_iff_take)
    moreover have "drop (length t - j) t \<noteq> take j seq"
      using kj jn unfolding k_def by (rule nxt_loop_greatest)
    ultimately show False by simp
  qed
  have "Max (length ` {u. suffix u t \<and> prefix u seq}) = k"
    by (rule Max_eqI) (use finite_borders mem ub in auto)
  then show ?thesis
    by (simp add: longest_suffix_prefix_def nxt_def Let_def t_def n_def k_def)
qed

lemma nxt_le: "nxt seq s b \<le> length seq"
  unfolding nxt_def Let_def by (rule order_trans[OF nxt_loop_le]) simp

lemma fold_upd:
  "fold (\<lambda>st tr. tr(st \<mapsto> f st)) [0..<n] m = (\<lambda>st. if st < n then Some (f st) else m st)"
  by (induction n) (auto simp: fun_eq_iff)

subsection \<open>The table that is built\<close>

lemma row_of_upd:
  "(row_of seq st)(''0'' \<mapsto> nxt seq 0 CHR ''0'', ''1'' \<mapsto> nxt seq 0 CHR ''1'') = row_of seq 0"
  by (simp add: row_of_def fun_eq_iff)

lemma build_transitions_eq:
  "build_transitions p ov = Inr (table_of p ov, length (strip p))"
  unfolding build_transitions_def Let_def fold_upd
  by (auto simp: copy_from_S0_def lookup_def getitem_def table_of_def Let_def row_of_def fun_eq_iff)

lemma lookup_table_of:
  "st \<le> length (strip p) \<Longrightarrow> b \<in> {''0'', ''1''} \<Longrightarrow>
   lookup (table_of p ov) st b =
     Inr (nxt (strip p) (if \<not> ov \<and> 1 \<le> length (strip p) \<and> st = length (strip p) then 0 else st)
            (hd b))"
  by (auto simp: lookup_def getitem_def table_of_def Let_def row_of_def)

lemma table_of_ok: "table_ok (table_of p ov) (length (strip p))"
  unfolding table_ok_def
  by (intro allI impI ballI) (simp add: lookup_table_of nxt_le)

lemma init_loop_eq:
  "init_loop ps ov ts ls =
     Inr (ts @ map (\<lambda>p. table_of p ov) ps, ls @ map (\<lambda>p. length (strip p)) ps)"
  by (induction ps arbitrary: ts ls) (simp_all add: build_transitions_eq)

lemma StreamMultiDetector_eq:
  "StreamMultiDetector ps ov =
     Inr \<lparr>patterns = ps, allow_overlap = ov, tables = map (\<lambda>p. table_of p ov) ps,
          plens = map (\<lambda>p. length (strip p)) ps,
          states = replicate (length ps) 0, counts = replicate (length ps) 0\<rparr>"
  by (simp add: StreamMultiDetector_def init_loop_eq)

lemma wf_constructed: "StreamMultiDetector ps ov = Inr d \<Longrightarrow> wf d"
  by (auto simp: StreamMultiDetector_eq wf_def table_of_ok)

lemma step_body_wf:
  assumes "wf d" and "b \<in> {''0'', ''1''}" and "i < length (patterns d)"
  shows "\<exists>k \<le> plens d ! i.
           lookup (tables d ! i) (states d ! i) b = Inr k \<and>
           step_body i b d =
             (Inr (), d\<lparr>states := (states d)[i := k],
                        counts := (counts d)[i := (if k = plens d ! i then counts d ! i + 1
                                                   else counts d ! i)]\<rparr>)"
proof -
  from assms have len: "i < length (tables d)" "i < length (states d)"
      "i < length (plens d)" "i < length (counts d)"
    and ok: "table_ok (tables d ! i) (plens d ! i)" and st: "states d ! i \<le> plens d ! i"
    by (simp_all add: wf_def Let_def)
  from ok st assms(2) obtain k where k: "k \<le> plens d ! i"
      "lookup (tables d ! i) (states d ! i) b = Inr k"
    unfolding table_ok_def by blast
  have "step_body i b d =
          (Inr (), d\<lparr>states := (states d)[i := k],
                     counts := (counts d)[i := (if k = plens d ! i then counts d ! i + 1
                                                else counts d ! i)]\<rparr>)"
    using len k by (simp add: step_body_def list_get_def Let_def)
  with k show ?thesis by blast
qed

subsection \<open>One call of \<open>step\<close>\<close>

lemma step_loop_wf:
  assumes "wf d" and "b \<in> {''0'', ''1''}" and "distinct is"
    and "\<forall>i \<in> set is. i < length (patterns d)"
  shows "\<exists>d'. step_loop is b d = (Inr (), d') \<and> wf d' \<and>
           patterns d' = patterns d \<and> allow_overlap d' = allow_overlap d \<and>
           tables d' = tables d \<and> plens d' = plens d \<and>
           (\<forall>i < length (patterns d).
              if i \<in> set is
              then lookup (tables d ! i) (states d ! i) b = Inr (states d' ! i) \<and>
                   counts d' ! i = (if states d' ! i = plens d ! i then counts d ! i + 1
                                    else counts d ! i)
              else states d' ! i = states d ! i \<and> counts d' ! i = counts d ! i)"
  using assms
proof (induction "is" arbitrary: d)
  case Nil
  then show ?case by simp
next
  case (Cons j js)
  let ?n = "length (patterns d)"
  from Cons.prems have j: "j < ?n" and jn: "j \<notin> set js" and dj: "distinct js"
    and js: "\<forall>i \<in> set js. i < ?n" by auto
  from step_body_wf[OF Cons.prems(1,2) j] obtain k where k: "k \<le> plens d ! j"
      "lookup (tables d ! j) (states d ! j) b = Inr k"
      "step_body j b d =
         (Inr (), d\<lparr>states := (states d)[j := k],
                    counts := (counts d)[j := (if k = plens d ! j then counts d ! j + 1
                                               else counts d ! j)]\<rparr>)"
    by blast
  define d1 where "d1 = d\<lparr>states := (states d)[j := k],
      counts := (counts d)[j := (if k = plens d ! j then counts d ! j + 1 else counts d ! j)]\<rparr>"
  have same: "patterns d1 = patterns d" "allow_overlap d1 = allow_overlap d"
      "tables d1 = tables d" "plens d1 = plens d"
    by (simp_all add: d1_def)
  have lens: "length (states d) = ?n" "length (counts d) = ?n"
    using Cons.prems(1) by (simp_all add: wf_def Let_def)
  have wf1: "wf d1"
    using Cons.prems(1) k(1) j by (auto simp: wf_def Let_def d1_def nth_list_update)
  have js1: "\<forall>i \<in> set js. i < length (patterns d1)" using js by (simp add: same)
  from Cons.IH[OF wf1 Cons.prems(2) dj js1] obtain d' where d':
      "step_loop js b d1 = (Inr (), d')" "wf d'"
      "patterns d' = patterns d1" "allow_overlap d' = allow_overlap d1"
      "tables d' = tables d1" "plens d' = plens d1"
      "\<forall>i < length (patterns d1).
              if i \<in> set js
              then lookup (tables d1 ! i) (states d1 ! i) b = Inr (states d' ! i) \<and>
                   counts d' ! i = (if states d' ! i = plens d1 ! i then counts d1 ! i + 1
                                    else counts d1 ! i)
              else states d' ! i = states d1 ! i \<and> counts d' ! i = counts d1 ! i"
    by blast
  have run: "step_loop (j # js) b d = (Inr (), d')"
    using k(3) d'(1) by (simp add: d1_def)
  have post: "if i \<in> set (j # js)
              then lookup (tables d ! i) (states d ! i) b = Inr (states d' ! i) \<and>
                   counts d' ! i = (if states d' ! i = plens d ! i then counts d ! i + 1
                                    else counts d ! i)
              else states d' ! i = states d ! i \<and> counts d' ! i = counts d ! i"
    if i: "i < ?n" for i
  proof (cases "i = j")
    case True
    from d'(7)[rule_format, of j] j jn have "states d' ! j = states d1 ! j" "counts d' ! j = counts d1 ! j"
      by (simp_all add: same)
    then have "states d' ! j = k"
      "counts d' ! j = (if k = plens d ! j then counts d ! j + 1 else counts d ! j)"
      using j lens by (simp_all add: d1_def)
    then show ?thesis using True k(2) by simp
  next
    case False
    then have eq: "states d1 ! i = states d ! i" "counts d1 ! i = counts d ! i"
      by (simp_all add: d1_def)
    from d'(7)[rule_format, of i] i False show ?thesis
      unfolding same eq by (auto split: if_splits)
  qed
  show ?case
    using run d'(2-6) post by (auto simp: same)
qed

lemma step_valid:
  assumes "wf d" and "b \<in> {''0'', ''1''}"
  shows "\<exists>d'. step d b = (Inr (), d') \<and> wf d' \<and>
           patterns d' = patterns d \<and> allow_overlap d' = allow_overlap d \<and>
           tables d' = tables d \<and> plens d' = plens d \<and>
           (\<forall>i < length (patterns d).
              lookup (tables d ! i) (states d ! i) b = Inr (states d' ! i) \<and>
              counts d' ! i = (if states d' ! i = plens d ! i then counts d ! i + 1
                               else counts d ! i))"
proof -
  have "distinct [0..<length (patterns d)]"
    and "\<forall>i \<in> set [0..<length (patterns d)]. i < length (patterns d)" by simp_all
  from step_loop_wf[OF assms this] obtain d' where
    "step_loop [0..<length (patterns d)] b d = (Inr (), d')" "wf d'"
    "patterns d' = patterns d" "allow_overlap d' = allow_overlap d"
    "tables d' = tables d" "plens d' = plens d"
    "\<forall>i < length (patterns d).
              if i \<in> set [0..<length (patterns d)]
              then lookup (tables d ! i) (states d ! i) b = Inr (states d' ! i) \<and>
                   counts d' ! i = (if states d' ! i = plens d ! i then counts d ! i + 1
                                    else counts d ! i)
              else states d' ! i = states d ! i \<and> counts d' ! i = counts d ! i"
    by blast
  then show ?thesis using assms(2) by (auto simp: step_def)
qed

lemma step_invalid: "b \<notin> {''0'', ''1''} \<Longrightarrow> step d b = (Inl ValueError, d)"
  by (simp add: step_def)

lemma step_wf: "wf d \<Longrightarrow> step d b = (r, d') \<Longrightarrow> wf d'"
  by (cases "b \<in> {''0'', ''1''}") (use step_valid[of d b] step_invalid[of b d] in auto)

lemma step_config:
  "wf d \<Longrightarrow> step d b = (r, d') \<Longrightarrow>
   patterns d' = patterns d \<and> allow_overlap d' = allow_overlap d \<and>
   tables d' = tables d \<and> plens d' = plens d"
  by (cases "b \<in> {''0'', ''1''}") (use step_valid[of d b] step_invalid[of b d] in auto)

lemma reachable_wf: "reachable d \<Longrightarrow> wf d"
  by (induction rule: reachable.induct) (auto intro: wf_constructed step_wf)

subsection \<open>Detectors that can be reached, sequences of calls, and the prompt\<close>

lemma reachable_built:
  "reachable d \<Longrightarrow>
     tables d = map (\<lambda>p. table_of p (allow_overlap d)) (patterns d) \<and>
     plens d = map (\<lambda>p. length (strip p)) (patterns d)"
proof (induction rule: reachable.induct)
  case (constructed pats ov d)
  then show ?case by (auto simp: StreamMultiDetector_eq)
next
  case (stepped d b r d')
  from step_config[OF reachable_wf[OF stepped.hyps(1)] stepped.hyps(2)] stepped.IH
  show ?case by simp
qed

lemma feed_valid:
  assumes "wf d" and "set bs \<subseteq> {''0'', ''1''}"
  shows "\<exists>d'. feed d bs = (Inr (), d') \<and> wf d' \<and>
           patterns d' = patterns d \<and> allow_overlap d' = allow_overlap d"
  using assms
proof (induction bs arbitrary: d)
  case Nil
  then show ?case by simp
next
  case (Cons b bs)
  then have b: "b \<in> {''0'', ''1''}" and bs: "set bs \<subseteq> {''0'', ''1''}" by auto
  from step_valid[OF Cons.prems(1) b] obtain d1 where d1: "step d b = (Inr (), d1)" "wf d1"
    "patterns d1 = patterns d" "allow_overlap d1 = allow_overlap d" by blast
  from Cons.IH[OF d1(2) bs] obtain d' where "feed d1 bs = (Inr (), d')" "wf d'"
    "patterns d' = patterns d1" "allow_overlap d' = allow_overlap d1" by blast
  then show ?case using d1 by simp
qed

lemma prompt_loop_sound:
  assumes "prompt_loop ls acc = Inr pats"
    and "\<forall>q \<in> set acc. q \<noteq> [] \<and> set q \<subseteq> {CHR ''0'', CHR ''1''}"
  shows "\<forall>q \<in> set pats. q \<noteq> [] \<and> set q \<subseteq> {CHR ''0'', CHR ''1''}"
  using assms
proof (induction ls arbitrary: acc)
  case Nil
  then show ?case by simp
next
  case (Cons l ls)
  show ?case
  proof (cases "strip l = []")
    case True
    with Cons.prems show ?thesis by simp
  next
    case False
    show ?thesis
    proof (cases "list_ex (\<lambda>c. c \<notin> set ''01'') (strip l)")
      case True
      with False Cons.prems have "prompt_loop ls acc = Inr pats" by (simp add: Let_def)
      from Cons.IH[OF this Cons.prems(2)] show ?thesis .
    next
      case nb: False
      then have good: "set (strip l) \<subseteq> {CHR ''0'', CHR ''1''}"
        by (auto simp: list_ex_iff)
      from nb False Cons.prems have run: "prompt_loop ls (acc @ [strip l]) = Inr pats"
        by (simp add: Let_def)
      have "\<forall>q \<in> set (acc @ [strip l]). q \<noteq> [] \<and> set q \<subseteq> {CHR ''0'', CHR ''1''}"
        using Cons.prems(2) False good by auto
      from Cons.IH[OF run this] show ?thesis .
    qed
  qed
qed

lemma strip_binary: "set p \<subseteq> {CHR ''0'', CHR ''1''} \<Longrightarrow> strip p = p"
proof (rule strip_no_space)
  assume b: "set p \<subseteq> {CHR ''0'', CHR ''1''}"
  show "p = [] \<or> \<not> isspace (hd p) \<and> \<not> isspace (last p)"
  proof (cases "p = []")
    case True
    then show ?thesis by simp
  next
    case False
    then have "hd p \<in> set p" "last p \<in> set p" by simp_all
    with b have "hd p \<in> {CHR ''0'', CHR ''1''}" "last p \<in> {CHR ''0'', CHR ''1''}" by auto
    then show ?thesis using isspace_simps by auto
  qed
qed

lemma wf_state_le: "wf d \<Longrightarrow> i < length (patterns d) \<Longrightarrow> states d ! i \<le> plens d ! i"
  by (simp add: wf_def Let_def)

section \<open>Verified properties\<close>

subsection \<open>The automaton builder\<close>

text \<open>
  C1. For every pattern over the symbols 0 and 1, of length \<open>L\<close>, every state \<open>s\<close> from 0
  to \<open>L\<close> and every symbol \<open>b\<close>, the builder returns under the overlapping policy a table
  whose entry for \<open>s\<close> and \<open>b\<close> is the length of the longest suffix of the first \<open>s\<close>
  symbols of the pattern followed by \<open>b\<close> that is also a prefix of the pattern.
\<close>

theorem overlapping_entry_is_longest_suffix_prefix:
  assumes "set pattern \<subseteq> {CHR ''0'', CHR ''1''}"
    and "s \<le> length pattern"
    and "b \<in> {CHR ''0'', CHR ''1''}"
  shows "\<exists>t. build_transitions pattern True = Inr (t, length pattern) \<and>
             lookup t s [b] = Inr (longest_suffix_prefix (take s pattern @ [b]) pattern)"
proof -
  have sp: "strip pattern = pattern" using assms(1) by (rule strip_binary)
  have "b = CHR ''0'' \<or> b = CHR ''1''" using assms(3) by simp
  then have "lookup (table_of pattern True) s [b] = Inr (nxt pattern s b)"
    using lookup_table_of[of s pattern "[b]" True] assms(2) by (auto simp: sp)
  then show ?thesis
    using build_transitions_eq[of pattern True] by (simp add: sp nxt_longest)
qed

theorem overlapping_entry_is_longest_suffix_prefix_witness:
  "set ''101'' \<subseteq> {CHR ''0'', CHR ''1''} \<and> (3::nat) \<le> length ''101'' \<and>
   CHR ''1'' \<in> {CHR ''0'', CHR ''1''} \<and>
   (\<exists>t. build_transitions ''101'' True = Inr (t, length ''101'') \<and>
        lookup t 3 ''1'' = Inr (longest_suffix_prefix (take 3 ''101'' @ ''1'') ''101''))"
  using overlapping_entry_is_longest_suffix_prefix[of "''101''" 3 "CHR ''1''"] by simp

text \<open>
  C2, as the code has it. The builder and the constructor of the detector never raise:
  for every pattern string, the empty one and one with a symbol other than 0 and 1
  included, \<^verbatim>\<open>build_transitions\<close> returns a table and the length of the stripped pattern
  as the accept state, and for every list of patterns \<^verbatim>\<open>StreamMultiDetector\<close> returns a
  detector that holds the patterns, with every state and every counter 0. The patterns
  are validated by the caller: every pattern that \<^verbatim>\<open>prompt_patterns\<close> returns is non-empty
  and made of the symbols 0 and 1 only, and it returns at least one.
\<close>

theorem construction_never_fails_and_prompt_validates:
  "(\<exists>t. build_transitions p ov = Inr (t, length (strip p))) \<and>
   (\<exists>d. StreamMultiDetector pats ov = Inr d \<and> patterns d = pats \<and>
        snapshot d = (replicate (length pats) 0, replicate (length pats) 0)) \<and>
   (prompt_patterns stdin = Inr ps \<longrightarrow>
      ps \<noteq> [] \<and> (\<forall>q \<in> set ps. q \<noteq> [] \<and> set q \<subseteq> {CHR ''0'', CHR ''1''}))"
proof -
  have 1: "\<exists>t. build_transitions p ov = Inr (t, length (strip p))"
    by (simp add: build_transitions_eq)
  have 2: "\<exists>d. StreamMultiDetector pats ov = Inr d \<and> patterns d = pats \<and>
        snapshot d = (replicate (length pats) 0, replicate (length pats) 0)"
    by (simp add: StreamMultiDetector_eq snapshot_def)
  have 3: "ps \<noteq> [] \<and> (\<forall>q \<in> set ps. q \<noteq> [] \<and> set q \<subseteq> {CHR ''0'', CHR ''1''})"
    if "prompt_patterns stdin = Inr ps"
  proof -
    from that have l: "prompt_loop stdin [] = Inr ps" and ne: "ps \<noteq> []"
      by (auto simp: prompt_patterns_def split: sum.splits if_splits)
    from prompt_loop_sound[OF l] ne show ?thesis by simp
  qed
  from 1 2 3 show ?thesis by blast
qed

theorem construction_never_fails_and_prompt_validates_witness:
  "prompt_patterns [''101'', ''102'', '' 11 '', '''', ''0''] = Inr [''101'', ''11''] \<and>
   [''101'', ''11''] \<noteq> [] \<and> ''101'' \<noteq> [] \<and> set ''101'' \<subseteq> {CHR ''0'', CHR ''1''} \<and>
   ''11'' \<noteq> [] \<and> set ''11'' \<subseteq> {CHR ''0'', CHR ''1''}"
proof -
  have e: "prompt_patterns [''101'', ''102'', '' 11 '', '''', ''0''] = Inr [''101'', ''11'']"
    by code_simp
  from construction_never_fails_and_prompt_validates[of "[]" True "[]"
      "[''101'', ''102'', '' 11 '', '''', ''0'']" "[''101'', ''11'']"] e
  have "[''101'', ''11''] \<noteq> [] \<and>
        (\<forall>q \<in> set [''101'', ''11'']. q \<noteq> [] \<and> set q \<subseteq> {CHR ''0'', CHR ''1''})"
    by blast
  with e show ?thesis by simp
qed

text \<open>
  The builder and the constructor return a result for the empty pattern and for the
  pattern \<^verbatim>\<open>102\<close>: no exception is raised for either.
\<close>

theorem invalid_patterns_are_built_counterexample:
  "\<not> isl (build_transitions [] True) \<and> \<not> isl (build_transitions ''102'' True) \<and>
   \<not> isl (StreamMultiDetector [[], ''102''] True)"
  by (simp add: build_transitions_eq StreamMultiDetector_eq)

text \<open>
  C3. Under the non-overlapping policy the table differs from the table of the
  overlapping policy at the accept state \<open>L\<close> only: for both symbols the entry of state
  \<open>L\<close> is the entry of state 0, and the row of every other state is the row of the
  overlapping table. (This holds for every pattern string, with \<open>L\<close> the length of the
  stripped pattern; for a non-empty pattern over 0 and 1 that is the length of the
  pattern.)
\<close>

theorem non_overlapping_differs_only_at_accept:
  "\<exists>tn to. build_transitions pattern False = Inr (tn, length (strip pattern)) \<and>
            build_transitions pattern True = Inr (to, length (strip pattern)) \<and>
            (\<forall>b \<in> {''0'', ''1''}. \<exists>k. lookup tn (length (strip pattern)) b = Inr k \<and>
                                       lookup tn 0 b = Inr k) \<and>
            (\<forall>s. s \<noteq> length (strip pattern) \<longrightarrow> tn s = to s)"
proof -
  let ?L = "length (strip pattern)"
  have same: "lookup (table_of pattern False) ?L b = lookup (table_of pattern False) 0 b"
    if "b \<in> {''0'', ''1''}" for b
    using that lookup_table_of[of ?L pattern b False] lookup_table_of[of 0 pattern b False]
    by (cases "?L = 0") auto
  have "\<exists>k. lookup (table_of pattern False) ?L b = Inr k \<and>
            lookup (table_of pattern False) 0 b = Inr k" if "b \<in> {''0'', ''1''}" for b
    using same[OF that] lookup_table_of[of 0 pattern b False] that by simp
  moreover have "table_of pattern False s = table_of pattern True s" if "s \<noteq> ?L" for s
    using that by (simp add: table_of_def Let_def)
  ultimately show ?thesis
    by (simp only: build_transitions_eq) blast
qed

theorem non_overlapping_differs_only_at_accept_witness:
  "\<exists>tn to. build_transitions ''101'' False = Inr (tn, 3) \<and>
            build_transitions ''101'' True = Inr (to, 3) \<and>
            lookup tn 3 ''0'' = lookup tn 0 ''0'' \<and> lookup tn 3 ''1'' = lookup tn 0 ''1'' \<and>
            tn 0 = to 0 \<and> tn 1 = to 1 \<and> tn 2 = to 2"
proof -
  have L: "length (strip ''101'') = 3" by (simp add: strip_def isspace_def)
  from non_overlapping_differs_only_at_accept[of "''101''"] obtain tn to where
    h: "build_transitions ''101'' False = Inr (tn, length (strip ''101''))"
       "build_transitions ''101'' True = Inr (to, length (strip ''101''))"
       "\<forall>b \<in> {''0'', ''1''}. \<exists>k. lookup tn (length (strip ''101'')) b = Inr k \<and>
                                  lookup tn 0 b = Inr k"
       "\<forall>s. s \<noteq> length (strip ''101'') \<longrightarrow> tn s = to s"
    by blast
  note g = h[unfolded L]
  from g(3) have "lookup tn 3 ''0'' = lookup tn 0 ''0''" "lookup tn 3 ''1'' = lookup tn 0 ''1''"
    by auto
  moreover from g(4) have "tn 0 = to 0" "tn 1 = to 1" "tn 2 = to 2" by simp_all
  ultimately show ?thesis using g(1,2) by blast
qed

text \<open>
  C6. For every pattern the table that is built is total and in range: with \<open>L\<close> the
  accept state, every state from 0 to \<open>L\<close> and each of the two symbols has an entry, and
  the entry is at most \<open>L\<close>. Consequently, in every detector that can be reached each
  current state is at most the accept state of its pattern, the read of the table that
  \<^verbatim>\<open>step\<close> performs succeeds and gives a state in range, and \<^verbatim>\<open>step\<close> with a valid
  symbol returns, leaving a detector that can be reached again.
\<close>

theorem table_total_and_in_range:
  "(\<exists>t. build_transitions pattern ov = Inr (t, length (strip pattern)) \<and>
        (\<forall>s \<le> length (strip pattern). \<forall>b \<in> {''0'', ''1''}.
           \<exists>k \<le> length (strip pattern). lookup t s b = Inr k)) \<and>
   (reachable d \<longrightarrow>
      length (states d) = length (patterns d) \<and>
      (\<forall>i < length (patterns d).
         states d ! i \<le> plens d ! i \<and>
         (\<forall>b \<in> {''0'', ''1''}.
            \<exists>k \<le> plens d ! i. lookup (tables d ! i) (states d ! i) b = Inr k)) \<and>
      (\<forall>b \<in> {''0'', ''1''}. \<exists>d'. step d b = (Inr (), d') \<and> reachable d'))"
proof -
  have 1: "\<exists>t. build_transitions pattern ov = Inr (t, length (strip pattern)) \<and>
        (\<forall>s \<le> length (strip pattern). \<forall>b \<in> {''0'', ''1''}.
           \<exists>k \<le> length (strip pattern). lookup t s b = Inr k)"
    using table_of_ok[of pattern ov] unfolding table_ok_def
    by (simp only: build_transitions_eq) blast
  have 2: "length (states d) = length (patterns d) \<and>
      (\<forall>i < length (patterns d).
         states d ! i \<le> plens d ! i \<and>
         (\<forall>b \<in> {''0'', ''1''}.
            \<exists>k \<le> plens d ! i. lookup (tables d ! i) (states d ! i) b = Inr k)) \<and>
      (\<forall>b \<in> {''0'', ''1''}. \<exists>d'. step d b = (Inr (), d') \<and> reachable d')"
    if r: "reachable d"
  proof -
    have w: "wf d" using r by (rule reachable_wf)
    have a: "length (states d) = length (patterns d)" using w by (simp add: wf_def Let_def)
    have b: "states d ! i \<le> plens d ! i \<and>
         (\<forall>b \<in> {''0'', ''1''}.
            \<exists>k \<le> plens d ! i. lookup (tables d ! i) (states d ! i) b = Inr k)"
      if "i < length (patterns d)" for i
    proof -
      from w that have "table_ok (tables d ! i) (plens d ! i)" "states d ! i \<le> plens d ! i"
        by (simp_all add: wf_def Let_def)
      then show ?thesis unfolding table_ok_def by blast
    qed
    have c: "\<exists>d'. step d b = (Inr (), d') \<and> reachable d'" if "b \<in> {''0'', ''1''}" for b
    proof -
      from step_valid[OF w that] obtain d' where "step d b = (Inr (), d')" by blast
      then show ?thesis using reachable.stepped[OF r] by blast
    qed
    from a b c show ?thesis by blast
  qed
  from 1 2 show ?thesis by blast
qed

theorem table_total_and_in_range_witness:
  "reachable (projr (StreamMultiDetector [''101''] False)) \<and>
   (\<exists>t. build_transitions ''101'' False = Inr (t, 3) \<and>
        (\<exists>k \<le> 3. lookup t 3 ''0'' = Inr k)) \<and>
   (\<exists>d'. step (projr (StreamMultiDetector [''101''] False)) ''0'' = (Inr (), d') \<and>
         reachable d')"
proof -
  let ?d = "projr (StreamMultiDetector [''101''] False)"
  have r: "reachable ?d"
    by (rule reachable.constructed[of "[''101'']" False]) (simp add: StreamMultiDetector_eq)
  have L: "length (strip ''101'') = 3" by (simp add: strip_def isspace_def)
  from table_total_and_in_range[of "''101''" False ?d] r
  have 1: "\<exists>t. build_transitions ''101'' False = Inr (t, 3) \<and>
        (\<forall>s \<le> 3. \<forall>b \<in> {''0'', ''1''}. \<exists>k \<le> 3. lookup t s b = Inr k)"
    and 2: "\<forall>b \<in> {''0'', ''1''}. \<exists>d'. step ?d b = (Inr (), d') \<and> reachable d'"
    unfolding L by blast+
  from 1 have "\<exists>t. build_transitions ''101'' False = Inr (t, 3) \<and>
        (\<exists>k \<le> 3. lookup t 3 ''0'' = Inr k)" by auto
  moreover from 2 have "\<exists>d'. step ?d ''0'' = (Inr (), d') \<and> reachable d'" by simp
  ultimately show ?thesis using r by blast
qed

text \<open>
  C9. For every pattern string and either policy, the builder returns for the pattern
  what it returns for the pattern without its leading and trailing whitespace: the
  whitespace is stripped, not rejected, and a pattern of whitespace only is built as the
  empty pattern.
\<close>

theorem strip_is_silent:
  "build_transitions (strip p) ov = build_transitions p ov \<and>
   ((\<forall>c \<in> set p. isspace c) \<longrightarrow> build_transitions p ov = build_transitions [] ov)"
proof -
  have 1: "build_transitions (strip p) ov = build_transitions p ov"
    by (simp only: build_transitions_eq table_of_def strip_idem)
  have e: "strip [] = []" by (simp add: strip_def)
  have 2: "build_transitions p ov = build_transitions [] ov" if "\<forall>c \<in> set p. isspace c"
    using strip_all_space[OF that] by (simp only: build_transitions_eq table_of_def e)
  from 1 2 show ?thesis by blast
qed

theorem strip_is_silent_witness:
  "isspace CHR '' '' \<and>
   build_transitions (strip '' '') False = build_transitions '' '' False \<and>
   build_transitions '' '' False = build_transitions [] False \<and>
   build_transitions '' 101 '' True = build_transitions ''101'' True"
proof -
  have sp: "\<forall>c \<in> set '' ''. isspace c" by (simp add: isspace_def)
  have st: "strip '' 101 '' = ''101''" by (simp add: strip_def isspace_def)
  from strip_is_silent[of "'' ''" False] strip_is_silent[of "'' 101 ''" True] sp st
  show ?thesis by simp
qed

subsection \<open>The streaming matcher\<close>

text \<open>
  C4. For every detector that can be reached and every valid symbol \<open>b\<close>, \<^verbatim>\<open>step\<close>
  returns, and for every pattern \<open>i\<close> the new state is the entry of its table for the old
  state and \<open>b\<close>; the counter of \<open>i\<close> is one more than before when the new state is the
  accept state of \<open>i\<close>, and unchanged otherwise. Patterns, policy, tables and accept
  states are left as they were.
\<close>

theorem step_advances_every_automaton:
  assumes "reachable d" and "b \<in> {''0'', ''1''}"
  shows "\<exists>d'. step d b = (Inr (), d') \<and>
           patterns d' = patterns d \<and> allow_overlap d' = allow_overlap d \<and>
           tables d' = tables d \<and> plens d' = plens d \<and>
           length (states d') = length (patterns d) \<and>
           length (counts d') = length (patterns d) \<and>
           (\<forall>i < length (patterns d).
              lookup (tables d ! i) (states d ! i) b = Inr (states d' ! i) \<and>
              counts d' ! i = (if states d' ! i = plens d ! i then counts d ! i + 1
                               else counts d ! i))"
proof -
  have w: "wf d" using assms(1) by (rule reachable_wf)
  from step_valid[OF w assms(2)] obtain d' where d': "step d b = (Inr (), d')" "wf d'"
    "patterns d' = patterns d" "allow_overlap d' = allow_overlap d"
    "tables d' = tables d" "plens d' = plens d"
    "\<forall>i < length (patterns d).
              lookup (tables d ! i) (states d ! i) b = Inr (states d' ! i) \<and>
              counts d' ! i = (if states d' ! i = plens d ! i then counts d ! i + 1
                               else counts d ! i)"
    by blast
  from d'(2,3) have "length (states d') = length (patterns d)"
    "length (counts d') = length (patterns d)"
    by (simp_all add: wf_def Let_def)
  with d' show ?thesis by blast
qed

theorem step_advances_every_automaton_witness:
  "reachable (projr (StreamMultiDetector [''101''] True)) \<and> ''1'' \<in> {''0'', ''1''} \<and>
   (\<exists>d'. step (projr (StreamMultiDetector [''101''] True)) ''1'' = (Inr (), d') \<and>
         states d' ! 0 = 1 \<and> counts d' ! 0 = 0)"
proof -
  let ?d = "projr (StreamMultiDetector [''101''] True)"
  have r: "reachable ?d"
    by (rule reachable.constructed[of "[''101'']" True]) (simp add: StreamMultiDetector_eq)
  have b: "''1'' \<in> {''0'', ''1''}" by simp
  have n: "length (patterns ?d) = 1" by code_simp
  have l: "lookup (tables ?d ! 0) (states ?d ! 0) ''1'' = Inr 1" by code_simp
  have p: "plens ?d ! 0 = 3" by code_simp
  have c: "counts ?d ! 0 = 0" by code_simp
  from step_advances_every_automaton[OF r b] obtain d' where
    s: "step ?d ''1'' = (Inr (), d')" and
    a: "\<forall>i < length (patterns ?d).
              lookup (tables ?d ! i) (states ?d ! i) ''1'' = Inr (states d' ! i) \<and>
              counts d' ! i = (if states d' ! i = plens ?d ! i then counts ?d ! i + 1
                               else counts ?d ! i)"
    by blast
  from a n have "lookup (tables ?d ! 0) (states ?d ! 0) ''1'' = Inr (states d' ! 0)"
    "counts d' ! 0 = (if states d' ! 0 = plens ?d ! 0 then counts ?d ! 0 + 1 else counts ?d ! 0)"
    by simp_all
  with l p c have "states d' ! 0 = 1" "counts d' ! 0 = 0" by simp_all
  with r b s show ?thesis by blast
qed

text \<open>
  C5. On a detector that can be reached, \<^verbatim>\<open>step\<close> raises the error for an invalid
  symbol (\<^verbatim>\<open>ValueError\<close> in the code) exactly when the symbol is neither \<^verbatim>\<open>'0'\<close> nor
  \<^verbatim>\<open>'1'\<close>. On that failure the detector is left as it was, so its snapshot is the one
  before the call, and a later call with a valid symbol returns.
\<close>

theorem invalid_symbol_is_rejected_before_any_mutation:
  assumes "reachable d"
  shows "(fst (step d b) = Inl ValueError \<longleftrightarrow> b \<notin> {''0'', ''1''}) \<and>
         (b \<notin> {''0'', ''1''} \<longrightarrow>
            snd (step d b) = d \<and> snapshot (snd (step d b)) = snapshot d \<and>
            (\<forall>b' \<in> {''0'', ''1''}. fst (step (snd (step d b)) b') = Inr ()))"
proof -
  have w: "wf d" using assms by (rule reachable_wf)
  have ok: "fst (step d c) = Inr ()" if "c \<in> {''0'', ''1''}" for c
    using step_valid[OF w that] by auto
  show ?thesis
  proof (cases "b \<in> {''0'', ''1''}")
    case True
    then show ?thesis using ok[OF True] by simp
  next
    case False
    then have "step d b = (Inl ValueError, d)" by (rule step_invalid)
    then show ?thesis using False ok by simp
  qed
qed

theorem invalid_symbol_is_rejected_before_any_mutation_witness:
  "reachable (projr (StreamMultiDetector [''101''] True)) \<and> ''2'' \<notin> {''0'', ''1''} \<and>
   fst (step (projr (StreamMultiDetector [''101''] True)) ''2'') = Inl ValueError \<and>
   snapshot (snd (step (projr (StreamMultiDetector [''101''] True)) ''2'')) =
     snapshot (projr (StreamMultiDetector [''101''] True)) \<and>
   fst (step (snd (step (projr (StreamMultiDetector [''101''] True)) ''2'')) ''1'') = Inr ()"
proof -
  let ?d = "projr (StreamMultiDetector [''101''] True)"
  have r: "reachable ?d"
    by (rule reachable.constructed[of "[''101'']" True]) (simp add: StreamMultiDetector_eq)
  have b: "''2'' \<notin> {''0'', ''1''}" by simp
  have v: "''1'' \<in> {''0'', ''1''}" by simp
  from invalid_symbol_is_rejected_before_any_mutation[OF r, of "''2''"] b
  have "fst (step ?d ''2'') = Inl ValueError"
    and "snapshot (snd (step ?d ''2'')) = snapshot ?d"
    and "\<forall>b' \<in> {''0'', ''1''}. fst (step (snd (step ?d ''2'')) b') = Inr ()"
    by blast+
  with r b v show ?thesis by blast
qed

text \<open>
  C7. For the single pattern \<^verbatim>\<open>101\<close> and the stream \<^verbatim>\<open>10101\<close> fed to a new detector:
  under the overlapping policy the counter after 0, 1, 2, 3, 4 and 5 symbols is
  0, 0, 0, 1, 1 and 2 (the accept state is reached at the symbols of index 2 and 4), so
  the final count is 2; under the non-overlapping policy the final count is 1.
\<close>

theorem overlap_101_on_10101:
  "(case StreamMultiDetector [''101''] True of
      Inl e \<Rightarrow> False
    | Inr d \<Rightarrow>
        fst (feed d [''1'', ''0'', ''1'', ''0'', ''1'']) = Inr () \<and>
        map (\<lambda>n. counts (snd (feed d (take n [''1'', ''0'', ''1'', ''0'', ''1''])))) [0, 1, 2, 3, 4, 5]
          = [[0], [0], [0], [1], [1], [2]]) \<and>
   (case StreamMultiDetector [''101''] False of
      Inl e \<Rightarrow> False
    | Inr d \<Rightarrow>
        fst (feed d [''1'', ''0'', ''1'', ''0'', ''1'']) = Inr () \<and>
        counts (snd (feed d [''1'', ''0'', ''1'', ''0'', ''1''])) = [1])"
  by code_simp

text \<open>
  C8. For every list of patterns, either policy and every sequence of valid symbols
  fed to the new detector, the command \<^verbatim>\<open>reset\<close> followed by \<^verbatim>\<open>snapshot\<close> gives counters that
  are all 0 and states that are all 0, the snapshot of the newly constructed detector;
  the detector after \<^verbatim>\<open>reset\<close> is the newly constructed one.
\<close>

theorem reset_gives_fresh_detector:
  assumes "set bits \<subseteq> {''0'', ''1''}"
  shows "\<exists>d0 d d'. StreamMultiDetector pats ov = Inr d0 \<and>
           feed d0 bits = (Inr (), d) \<and>
           reset d = Inr d' \<and>
           snapshot d' = (replicate (length pats) 0, replicate (length pats) 0) \<and>
           snapshot d' = snapshot d0 \<and> d' = d0"
proof -
  define d0 where "d0 = \<lparr>patterns = pats, allow_overlap = ov,
      tables = map (\<lambda>p. table_of p ov) pats, plens = map (\<lambda>p. length (strip p)) pats,
      states = replicate (length pats) 0, counts = replicate (length pats) 0\<rparr>"
  have c: "StreamMultiDetector pats ov = Inr d0"
    unfolding d0_def by (rule StreamMultiDetector_eq)
  have w: "wf d0" using c by (rule wf_constructed)
  from feed_valid[OF w assms] obtain d where d: "feed d0 bits = (Inr (), d)"
    "patterns d = patterns d0" "allow_overlap d = allow_overlap d0" by blast
  have "patterns d0 = pats" "allow_overlap d0 = ov" by (simp_all add: d0_def)
  with d have "reset d = Inr d0" by (simp add: reset_def c)
  moreover have "snapshot d0 = (replicate (length pats) 0, replicate (length pats) 0)"
    by (simp add: snapshot_def d0_def)
  ultimately show ?thesis using c d(1) by blast
qed

theorem reset_gives_fresh_detector_witness:
  "set [''1'', ''0'', ''1''] \<subseteq> {''0'', ''1''} \<and>
   (\<exists>d0 d d'. StreamMultiDetector [''101'', ''1''] False = Inr d0 \<and>
           feed d0 [''1'', ''0'', ''1''] = (Inr (), d) \<and>
           snapshot d = ([1, 2], [3, 1]) \<and>
           reset d = Inr d' \<and>
           snapshot d' = ([0, 0], [0, 0]) \<and> d' = d0)"
proof -
  have b: "set [''1'', ''0'', ''1''] \<subseteq> {''0'', ''1''}" by simp
  from reset_gives_fresh_detector[OF b, of "[''101'', ''1'']" False]
  obtain d0 d d' where h: "StreamMultiDetector [''101'', ''1''] False = Inr d0"
    "feed d0 [''1'', ''0'', ''1''] = (Inr (), d)" "reset d = Inr d'"
    "snapshot d' = (replicate (length [''101'', ''1'']) 0, replicate (length [''101'', ''1'']) 0)"
    "d' = d0"
    by blast
  have "snapshot (snd (feed (projr (StreamMultiDetector [''101'', ''1''] False))
          [''1'', ''0'', ''1''])) = ([1, 2], [3, 1])"
    by code_simp
  with h(1,2) have s: "snapshot d = ([1, 2], [3, 1])" by simp
  from h(4) have "snapshot d' = ([0, 0], [0, 0])" by (simp add: numeral_2_eq_2)
  with b h s show ?thesis by blast
qed

text \<open>
  C10. For the empty pattern the builder returns the accept state 0 and the table with
  the single state 0, whose two entries are 0. In a detector that can be reached, a
  pattern that is empty has the accept state 0 and the current state 0, and every call
  of \<^verbatim>\<open>step\<close> with a valid symbol adds exactly 1 to its counter.
\<close>

theorem empty_pattern_counts_every_step:
  "build_transitions [] ov = Inr ([0 \<mapsto> [''0'' \<mapsto> 0, ''1'' \<mapsto> 0]], 0) \<and>
   (reachable d \<and> i < length (patterns d) \<and> patterns d ! i = [] \<and> b \<in> {''0'', ''1''} \<longrightarrow>
      plens d ! i = 0 \<and> states d ! i = 0 \<and>
      (\<exists>d'. step d b = (Inr (), d') \<and> states d' ! i = 0 \<and>
            counts d' ! i = counts d ! i + 1))"
proof -
  have e: "strip [] = []" by (simp add: strip_def)
  have n: "nxt [] 0 c = 0" for c by (simp add: nxt_def)
  have "table_of [] ov = [0 \<mapsto> [''0'' \<mapsto> 0, ''1'' \<mapsto> 0]]"
    by (auto simp: table_of_def Let_def e row_of_def n fun_eq_iff)
  then have 1: "build_transitions [] ov = Inr ([0 \<mapsto> [''0'' \<mapsto> 0, ''1'' \<mapsto> 0]], 0)"
    by (simp add: build_transitions_eq e)
  have 2: "plens d ! i = 0 \<and> states d ! i = 0 \<and>
      (\<exists>d'. step d b = (Inr (), d') \<and> states d' ! i = 0 \<and>
            counts d' ! i = counts d ! i + 1)"
    if r: "reachable d" and i: "i < length (patterns d)" and p: "patterns d ! i = []"
      and b: "b \<in> {''0'', ''1''}"
  proof -
    have w: "wf d" using r by (rule reachable_wf)
    from reachable_built[OF r] i p have L: "plens d ! i = 0" by (simp add: e)
    from wf_state_le[OF w i] L have s: "states d ! i = 0" by simp
    from step_valid[OF w b] obtain d' where d': "step d b = (Inr (), d')" "wf d'"
      "patterns d' = patterns d" "plens d' = plens d"
      "\<forall>i < length (patterns d).
              lookup (tables d ! i) (states d ! i) b = Inr (states d' ! i) \<and>
              counts d' ! i = (if states d' ! i = plens d ! i then counts d ! i + 1
                               else counts d ! i)"
      by blast
    from i d'(3) have "i < length (patterns d')" by simp
    from wf_state_le[OF d'(2) this] d'(4) L have s': "states d' ! i = 0" by simp
    from d'(5) i have "counts d' ! i = (if states d' ! i = plens d ! i then counts d ! i + 1
                               else counts d ! i)" by simp
    with s' L have "counts d' ! i = counts d ! i + 1" by simp
    with L s s' d'(1) show ?thesis by blast
  qed
  from 1 2 show ?thesis by blast
qed

theorem empty_pattern_counts_every_step_witness:
  "reachable (projr (StreamMultiDetector [''1'', []] True)) \<and>
   (1::nat) < length (patterns (projr (StreamMultiDetector [''1'', []] True))) \<and>
   patterns (projr (StreamMultiDetector [''1'', []] True)) ! 1 = [] \<and>
   ''0'' \<in> {''0'', ''1''} \<and>
   (\<exists>d'. step (projr (StreamMultiDetector [''1'', []] True)) ''0'' = (Inr (), d') \<and>
         counts d' ! 1 = 1)"
proof -
  let ?d = "projr (StreamMultiDetector [''1'', []] True)"
  have r: "reachable ?d"
    by (rule reachable.constructed[of "[''1'', []]" True]) (simp add: StreamMultiDetector_eq)
  have i: "(1::nat) < length (patterns ?d)" by code_simp
  have p: "patterns ?d ! 1 = []" by code_simp
  have b: "''0'' \<in> {''0'', ''1''}" by simp
  have c: "counts ?d ! 1 = 0" by code_simp
  from empty_pattern_counts_every_step[of True ?d 1 "''0''"] r i p b
  obtain d' where "step ?d ''0'' = (Inr (), d')" "counts d' ! 1 = counts ?d ! 1 + 1"
    by blast
  with c have "step ?d ''0'' = (Inr (), d') \<and> counts d' ! 1 = 1" by simp
  with r i p b show ?thesis by blast
qed

end
